theory Spec2Isabelle
  imports Complex_Main "HOL-Library.AList"
begin

section \<open>Strings of the deploy handler\<close>

text \<open>
  The backend is \<^verbatim>\<open>src/backend/index.js\<close>. JavaScript strings are modelled as
  \<^typ>\<open>string\<close>; every function below works unit by unit, and a unit outside ASCII
  is treated like any other unit that is not an ASCII letter or digit.
\<close>

definition lower_letters :: string where
  "lower_letters = ''abcdefghijklmnopqrstuvwxyz''"

definition upper_letters :: string where
  "upper_letters = ''ABCDEFGHIJKLMNOPQRSTUVWXYZ''"

definition digit_chars :: string where
  "digit_chars = ''0123456789''"

text \<open>The character class \<^verbatim>\<open>[a-z0-9]\<close> under the flag \<^verbatim>\<open>i\<close>.\<close>

definition in_class_i :: "char \<Rightarrow> bool" where
  "in_class_i c = (c \<in> set (lower_letters @ upper_letters @ digit_chars))"

text \<open>\<^verbatim>\<open>name.replace(/[^a-z0-9]/gi, '_')\<close>: the flag \<^verbatim>\<open>g\<close> replaces every match.\<close>

definition replace_outside_class :: "string \<Rightarrow> string" where
  "replace_outside_class name = map (\<lambda>c. if in_class_i c then c else CHR ''_'') name"

text \<open>
  \<^verbatim>\<open>toLowerCase()\<close>, exact on ASCII: an upper-case letter goes to the lower-case
  letter at the same position of the alphabet, every other unit stays.
\<close>

definition lower_char :: "char \<Rightarrow> char" where
  "lower_char c = (case map_of (zip upper_letters lower_letters) c of Some d \<Rightarrow> d | None \<Rightarrow> c)"

definition toLowerCase :: "string \<Rightarrow> string" where
  "toLowerCase s = map lower_char s"

text \<open>\<^verbatim>\<open>const sanitize = (name) => name.replace(/[^a-z0-9]/gi, '_').toLowerCase();\<close>\<close>

definition sanitize :: "string \<Rightarrow> string" where
  "sanitize name = toLowerCase (replace_outside_class name)"

text \<open>\<^verbatim>\<open>s.split(sep)\<close> for a separator of one character: never the empty array.\<close>

fun split_acc :: "char \<Rightarrow> string \<Rightarrow> string \<Rightarrow> string list" where
  "split_acc sep cur [] = [rev cur]"
| "split_acc sep cur (c # cs) =
     (if c = sep then rev cur # split_acc sep [] cs else split_acc sep (c # cur) cs)"

definition split_str :: "char \<Rightarrow> string \<Rightarrow> string list" where
  "split_str sep s = split_acc sep [] s"

text \<open>
  \<^verbatim>\<open>s.replace(pat, rep)\<close> with a string pattern: only the first occurrence of
  \<^verbatim>\<open>pat\<close>, wherever it stands, is replaced.
\<close>

fun replace_first :: "string \<Rightarrow> string \<Rightarrow> string \<Rightarrow> string" where
  "replace_first pat rep [] = (if pat = [] then rep else [])"
| "replace_first pat rep (c # cs) =
     (if take (length pat) (c # cs) = pat then rep @ drop (length pat) (c # cs)
      else c # replace_first pat rep cs)"

text \<open>
  \<^verbatim>\<open>const repoName = repoUrl.split('/').pop().replace('.git', '');\<close>
  \<^verbatim>\<open>pop()\<close> returns the last element; the array is never empty (lemma
  \<open>split_nonempty\<close>).
\<close>

definition repoName_of :: "string \<Rightarrow> string" where
  "repoName_of url = replace_first ''.git'' '''' (last (split_str CHR ''/'' url))"

text \<open>
  The derivation as the specification words it, for comparison: the last path segment,
  with a trailing \<^verbatim>\<open>.git\<close> stripped and every other segment left as it is.
\<close>

definition strip_git_suffix :: "string \<Rightarrow> string" where
  "strip_git_suffix seg =
     (if 4 \<le> length seg \<and> drop (length seg - 4) seg = ''.git''
      then take (length seg - 4) seg else seg)"

definition spec_repoName :: "string \<Rightarrow> string" where
  "spec_repoName url = strip_git_suffix (last (split_str CHR ''/'' url))"

section \<open>The deployment store and its handlers\<close>

type_synonym dep_id = string

type_synonym handle = nat

text \<open>A value of the child environment: a string, or the number the port injection writes.\<close>

datatype jsval = Str string | Num int

text \<open>
  The body of \<^verbatim>\<open>POST /api/deploy\<close>: a field the request leaves out is
  \<^verbatim>\<open>undefined\<close>, here \<open>None\<close>.
\<close>

record request =
  req_repoUrl :: "string option"
  req_buildCmd :: "string option"
  req_runCmd :: "string option"
  req_envVars :: "(string \<rightharpoonup> string) option"
  req_proxy :: "string option"

text \<open>The object \<^verbatim>\<open>processes.set(id, {...})\<close> stores (lines 82-91).\<close>

record botData =
  process :: "handle option"
  status :: string
  repoUrl :: string
  deployPath :: string
  repoName :: string
  runCmd :: "string option"
  buildCmd :: "string option"
  env :: "string \<rightharpoonup> jsval"

text \<open>A thrown value, with its \<^verbatim>\<open>message\<close>.\<close>

datatype js_error = TypeError string | GitError string | SpawnError string

fun message :: "js_error \<Rightarrow> string" where
  "message (TypeError m) = m"
| "message (GitError m) = m"
| "message (SpawnError m) = m"

text \<open>
  The deploy handler is an \<^verbatim>\<open>async\<close> function with two suspension points: the
  \<^verbatim>\<open>await\<close> of the clone (line 50) and the \<^verbatim>\<open>await\<close> of the build's close
  (line 59). A suspended handler is a task holding the variables its continuation uses.
\<close>

datatype phase = AwaitClone | AwaitBuild

record task =
  t_req :: request
  t_repoUrl :: string
  t_repoName :: string
  t_deployPath :: string
  t_phase :: phase

text \<open>
  The \<^verbatim>\<open>close\<close> listener of a child process: the build's listener resumes the
  deploy handler of its id, the bot's listener is the closure of lines 96-101 (and
  159-164), which captures the id.
\<close>

datatype listener = BuildOf dep_id | BotOf dep_id

fun listener_id :: "listener \<Rightarrow> dep_id" where
  "listener_id (BuildOf i) = i"
| "listener_id (BotOf i) = i"

text \<open>
  What the environment decides when a handler runs: whether the operating system lets
  \<^verbatim>\<open>spawn\<close> throw (with which message), and the value of \<^verbatim>\<open>Math.random()\<close>,
  a binary64 number given as a pair \<open>(m, n)\<close> that stands for \<open>m / 2 ^ n\<close>.
\<close>

record nondet =
  spawn_fails :: "string option"
  math_random :: "nat \<times> nat"

text \<open>
  The state of the server: the map \<^verbatim>\<open>processes\<close> in insertion order (a
  JavaScript \<^verbatim>\<open>Map\<close>; \<^const>\<open>AList.update\<close> is its \<^verbatim>\<open>set\<close>), the suspended
  deploy handlers, the child processes that have not closed yet with their close
  listener, the next process handle, and the effects in order: kill signals that
  reached a live child, clone calls, and \<^verbatim>\<open>io.emit('log', {id, text})\<close>.
\<close>

record state =
  processes :: "(dep_id \<times> botData) list"
  tasks :: "dep_id \<rightharpoonup> task"
  children :: "handle \<rightharpoonup> listener"
  next_handle :: handle
  signalled :: "handle list"
  clones :: "(string \<times> string) list"
  emitted :: "(dep_id \<times> string) list"
  process_env :: "string \<rightharpoonup> string"

definition init :: "(string \<rightharpoonup> string) \<Rightarrow> state" where
  "init penv = \<lparr>processes = [], tasks = Map.empty, children = Map.empty, next_handle = 0,
     signalled = [], clones = [], emitted = [], process_env = penv\<rparr>"

definition emit :: "dep_id \<Rightarrow> string \<Rightarrow> state \<Rightarrow> state" where
  "emit i text s = s\<lparr>emitted := emitted s @ [(i, text)]\<rparr>"

text \<open>Truthiness of a string that may be \<^verbatim>\<open>undefined\<close>: the empty string is falsy.\<close>

fun truthy :: "string option \<Rightarrow> bool" where
  "truthy None = False"
| "truthy (Some v) = (v \<noteq> [])"

text \<open>A template literal \<^verbatim>\<open>${x}\<close> of a string that may be \<^verbatim>\<open>undefined\<close>.\<close>

fun js_str :: "string option \<Rightarrow> string" where
  "js_str None = ''undefined''"
| "js_str (Some v) = v"

text \<open>The decimal digits of a number, as a template literal prints it.\<close>

fun show_nat :: "nat \<Rightarrow> string" where
  "show_nat n = (if n < 10 then [digit_chars ! n] else show_nat (n div 10) @ [digit_chars ! (n mod 10)])"

text \<open>\<^verbatim>\<open>${code}\<close>: the exit code, \<^verbatim>\<open>null\<close> when a signal ended the process.\<close>

fun show_code :: "nat option \<Rightarrow> string" where
  "show_code None = ''null''"
| "show_code (Some n) = show_nat n"

text \<open>
  \<^verbatim>\<open>const DEPLOY_DIR = path.join(__dirname, 'deployments');\<close> The directory of
  the backend is not known here and is kept as the name \<^verbatim>\<open>__dirname\<close>.
\<close>

definition DEPLOY_DIR :: string where
  "DEPLOY_DIR = ''__dirname/deployments''"

text \<open>\<^verbatim>\<open>path.join(DEPLOY_DIR, `${sanitize(repoName)}_${id}`)\<close>\<close>

definition deployPath_of :: "string \<Rightarrow> dep_id \<Rightarrow> string" where
  "deployPath_of name i = DEPLOY_DIR @ ''/'' @ sanitize name @ ''_'' @ i"

text \<open>
  \<^verbatim>\<open>child_process.spawn(cmd, {shell: true, ...})\<close>: throws a TypeError when the
  command is not a string or is empty, throws when the operating system refuses, and
  otherwise returns a new child process. The messages of the two TypeErrors are Node's:
  the first has the word \<^verbatim>\<open>file\<close> in double quotes, the second in single quotes
  and ends in two single quotes.
\<close>

definition spawn :: "nondet \<Rightarrow> string option \<Rightarrow> state \<Rightarrow> js_error + (handle \<times> state)" where
  "spawn nd cmd s =
     (case cmd of
        None \<Rightarrow>
          Inl (TypeError (''The '' @ [CHR 0x22] @ ''file'' @ [CHR 0x22] @
                 '' argument must be of type string. Received undefined''))
      | Some c \<Rightarrow>
          if c = []
          then Inl (TypeError (''The argument '' @ [CHR 0x27] @ ''file'' @ [CHR 0x27] @
                      '' cannot be empty. Received '' @ [CHR 0x27, CHR 0x27]))
          else (case spawn_fails nd of
                  Some m \<Rightarrow> Inl (SpawnError m)
                | None \<Rightarrow> Inr (next_handle s, s\<lparr>next_handle := Suc (next_handle s)\<rparr>)))"

text \<open>\<^verbatim>\<open>child.kill()\<close>: a signal to a live child, nothing on one that has closed.\<close>

definition kill :: "handle \<Rightarrow> state \<Rightarrow> state" where
  "kill h s = (if children s h \<noteq> None then s\<lparr>signalled := signalled s @ [h]\<rparr> else s)"

text \<open>
  Binary64 arithmetic, as far as line 67 uses it. A value of \<^verbatim>\<open>Math.random()\<close> is a
  binary64 number that is at least 0 and below 1: a pair \<open>(m, n)\<close> that stands for
  \<open>m / 2 ^ n\<close>, with \<open>m\<close> below \<open>2 ^ 53\<close> and \<open>n\<close> at most 1074. Every
  intermediate value of line 67 is a multiple of \<open>1 / 2 ^ n\<close> below \<open>2 ^ 16\<close> and is kept
  as a natural number of that unit. Such a value is in the range where rounding to
  binary64 is rounding to 53 significant bits, to the nearest, ties to the even
  neighbour.
\<close>

definition is_random :: "nat \<times> nat \<Rightarrow> bool" where
  "is_random r = (case r of (m, n) \<Rightarrow> m < 2 ^ 53 \<and> n \<le> 1074 \<and> m < 2 ^ n)"

text \<open>The number of binary digits of a natural number.\<close>

fun bits :: "nat \<Rightarrow> nat" where
  "bits n = (if n = 0 then 0 else Suc (bits (n div 2)))"

declare bits.simps [simp del]

text \<open>\<open>v / 2 ^ s\<close> rounded to the nearest natural number, ties to the even one.\<close>

definition rne :: "nat \<Rightarrow> nat \<Rightarrow> nat" where
  "rne v s =
     (let q = v div 2 ^ s; r = v mod 2 ^ s
      in if 2 ^ s < 2 * r \<or> (2 * r = 2 ^ s \<and> odd q) then q + 1 else q)"

text \<open>A natural number rounded to 53 significant bits.\<close>

definition round53 :: "nat \<Rightarrow> nat" where
  "round53 v = (let s = bits v - 53 in rne v s * 2 ^ s)"

text \<open>
  \<^verbatim>\<open>Math.floor(Math.random() * (65535 - 10000) + 10000)\<close>: the difference is exact,
  the product is rounded, the sum is rounded, and the floor is exact.
\<close>

definition random_port :: "nat \<times> nat \<Rightarrow> int" where
  "random_port r =
     (case r of (m, n) \<Rightarrow>
        int (round53 (round53 (m * (65535 - 10000)) + 10000 * 2 ^ n) div 2 ^ n))"

text \<open>
  Lines 65-68:
  \<^verbatim>\<open>const botEnv = { ...process.env, ...envVars };\<close>
  \<^verbatim>\<open>if (!envVars.PORT) { botEnv.PORT = Math.floor(...); }\<close>
\<close>

definition merged_env ::
  "(string \<rightharpoonup> string) \<Rightarrow> (string \<rightharpoonup> string) \<Rightarrow> nat \<times> nat \<Rightarrow> (string \<rightharpoonup> jsval)" where
  "merged_env penv ev r =
     (let botEnv = map_option Str \<circ> (penv ++ ev)
      in if \<not> truthy (ev ''PORT'') then botEnv(''PORT'' \<mapsto> Num (random_port r)) else botEnv)"

text \<open>The catch block of the deploy handler (lines 103-106): one log line, and the handler ends.\<close>

definition deploy_catch :: "dep_id \<Rightarrow> js_error \<Rightarrow> state \<Rightarrow> state" where
  "deploy_catch i e s = (emit i (''Error: '' @ message e) s)\<lparr>tasks := (tasks s)(i := None)\<rparr>"

text \<open>
  The synchronous start of \<^verbatim>\<open>POST /api/deploy\<close> (lines 41-50). The line that
  computes \<^verbatim>\<open>repoName\<close> stands before the \<^verbatim>\<open>try\<close>: with no \<^verbatim>\<open>repoUrl\<close> it
  throws, and no response is sent. Otherwise the handler answers 202 with status
  \<^verbatim>\<open>cloning\<close>, starts the clone and suspends. The id is the result of
  \<^verbatim>\<open>uuidv4()\<close>, an input here.
\<close>

datatype response =
  Started dep_id string
| Message string
| NotFound string
| ServerError string

definition deploy :: "dep_id \<Rightarrow> request \<Rightarrow> state \<Rightarrow> js_error + (response \<times> state)" where
  "deploy i req s =
     (case req_repoUrl req of
        None \<Rightarrow> Inl (TypeError (''Cannot read properties of undefined (reading '' @ [CHR 0x27] @ ''split'' @
                 [CHR 0x27] @ '')''))
      | Some url \<Rightarrow>
          let name = repoName_of url;
              path = deployPath_of name i;
              s1 = emit i (''Cloning '' @ url @ ''...'') s;
              s2 = s1\<lparr>clones := clones s1 @ [(url, path)]\<rparr>
          in Inr (Started i ''cloning'',
                  s2\<lparr>tasks := (tasks s2)(i \<mapsto>
                     \<lparr>t_req = req, t_repoUrl = url, t_repoName = name, t_deployPath = path,
                      t_phase = AwaitClone\<rparr>)\<rparr>))"

text \<open>The run stage of the deploy handler (lines 62-101).\<close>

definition start_bot :: "nondet \<Rightarrow> dep_id \<Rightarrow> task \<Rightarrow> state \<Rightarrow> state" where
  "start_bot nd i t s =
     (let req = t_req t;
          s1 = emit i (''Starting bot: '' @ js_str (req_runCmd req)) s
      in case req_envVars req of
           None \<Rightarrow> deploy_catch i
             (TypeError (''Cannot read properties of undefined (reading '' @ [CHR 0x27] @ ''PORT'' @
                [CHR 0x27] @ '')'')) s1
         | Some ev \<Rightarrow>
             let botEnv0 = merged_env (process_env s1) ev (math_random nd);
                 botEnv = (if truthy (req_proxy req)
                           then botEnv0(''SOCKS_PROXY'' \<mapsto> Str (js_str (req_proxy req))) else botEnv0);
                 s2 = (if truthy (req_proxy req)
                       then emit i (''Routing through proxy: '' @ last (split_str CHR ''@'' (js_str (req_proxy req)))) s1
                       else s1)
             in (case spawn nd (req_runCmd req) s2 of
                   Inl e \<Rightarrow> deploy_catch i e s2
                 | Inr (h, s3) \<Rightarrow>
                     s3\<lparr>processes := AList.update i
                           \<lparr>process = Some h, status = ''running'', repoUrl = t_repoUrl t,
                            deployPath = t_deployPath t, repoName = t_repoName t,
                            runCmd = req_runCmd req, buildCmd = req_buildCmd req, env = botEnv\<rparr>
                           (processes s3),
                        children := (children s3)(h \<mapsto> BotOf i),
                        tasks := (tasks s3)(i := None)\<rparr>))"

text \<open>The clone resolves (lines 51-60): the build is spawned, or the run stage follows at once.\<close>

definition clone_ok :: "dep_id \<Rightarrow> nondet \<Rightarrow> state \<Rightarrow> state" where
  "clone_ok i nd s =
     (case tasks s i of
        None \<Rightarrow> s
      | Some t \<Rightarrow>
          if t_phase t \<noteq> AwaitClone then s
          else
            let s1 = emit i ''Clone complete.'' s
            in if truthy (req_buildCmd (t_req t))
               then
                 let s2 = emit i (''Running build: '' @ js_str (req_buildCmd (t_req t))) s1
                 in case spawn nd (req_buildCmd (t_req t)) s2 of
                      Inl e \<Rightarrow> deploy_catch i e s2
                    | Inr (h, s3) \<Rightarrow>
                        s3\<lparr>children := (children s3)(h \<mapsto> BuildOf i),
                           tasks := (tasks s3)(i \<mapsto> t\<lparr>t_phase := AwaitBuild\<rparr>)\<rparr>
               else start_bot nd i t s1)"

text \<open>The clone rejects: the catch block.\<close>

definition clone_failed :: "dep_id \<Rightarrow> string \<Rightarrow> state \<Rightarrow> state" where
  "clone_failed i msg s =
     (case tasks s i of
        None \<Rightarrow> s
      | Some t \<Rightarrow> if t_phase t \<noteq> AwaitClone then s else deploy_catch i (GitError msg) s)"

text \<open>A chunk on stdout or stderr of a live child: one log line under the listener's id.\<close>

definition on_data :: "handle \<Rightarrow> string \<Rightarrow> state \<Rightarrow> state" where
  "on_data h text s = (case children s h of None \<Rightarrow> s | Some l \<Rightarrow> emit (listener_id l) text s)"

text \<open>
  The close event of a child, delivered once. A build's close resumes the deploy
  handler at the run stage. A bot's close runs the listener of lines 96-101:
  \<^verbatim>\<open>if (processes.has(id)) { processes.get(id).status = 'stopped'; }\<close>
\<close>

definition on_close :: "handle \<Rightarrow> nat option \<Rightarrow> nondet \<Rightarrow> state \<Rightarrow> state" where
  "on_close h code nd s =
     (case children s h of
        None \<Rightarrow> s
      | Some (BuildOf i) \<Rightarrow>
          (let s1 = s\<lparr>children := (children s)(h := None)\<rparr>
           in case tasks s1 i of None \<Rightarrow> s1 | Some t \<Rightarrow> start_bot nd i t s1)
      | Some (BotOf i) \<Rightarrow>
          (let s1 = emit i (''Process exited with code '' @ show_code code)
                      (s\<lparr>children := (children s)(h := None)\<rparr>)
           in case map_of (processes s1) i of
                None \<Rightarrow> s1
              | Some d \<Rightarrow> s1\<lparr>processes := AList.update i (d\<lparr>status := ''stopped''\<rparr>) (processes s1)\<rparr>))"

text \<open>\<^verbatim>\<open>POST /api/stop/:id\<close> (lines 119-129).\<close>

definition stop :: "dep_id \<Rightarrow> state \<Rightarrow> response \<times> state" where
  "stop i s =
     (case map_of (processes s) i of
        None \<Rightarrow> (NotFound ''Bot not found'', s)
      | Some d \<Rightarrow>
          (case process d of
             None \<Rightarrow> (NotFound ''Bot not found'', s)
           | Some h \<Rightarrow>
               let s1 = kill h s
               in (Message ''Bot stopped'',
                   s1\<lparr>processes := AList.update i (d\<lparr>status := ''stopped''\<rparr>) (processes s1)\<rparr>)))"

text \<open>\<^verbatim>\<open>POST /api/restart/:id\<close> (lines 131-170).\<close>

definition restart :: "dep_id \<Rightarrow> nondet \<Rightarrow> state \<Rightarrow> response \<times> state" where
  "restart i nd s =
     (case map_of (processes s) i of
        None \<Rightarrow> (NotFound ''Bot not found'', s)
      | Some d \<Rightarrow>
          let s1 = (case process d of Some h \<Rightarrow> kill h s | None \<Rightarrow> s);
              s2 = emit i ''--- RESTART INITIATED ---'' s1
          in (case spawn nd (runCmd d) s2 of
                Inl e \<Rightarrow> (ServerError (message e), s2)
              | Inr (h, s3) \<Rightarrow>
                  (Message ''Restarted successfully'',
                   s3\<lparr>processes := AList.update i (d\<lparr>process := Some h, status := ''running''\<rparr>)
                         (processes s3),
                      children := (children s3)(h \<mapsto> BotOf i)\<rparr>)))"

text \<open>\<^verbatim>\<open>GET /api/bots\<close> (lines 109-117).\<close>

record bot =
  bot_id :: dep_id
  bot_repoName :: string
  bot_status :: string
  bot_repoUrl :: string

definition listBots :: "state \<Rightarrow> bot list" where
  "listBots s =
     map (\<lambda>(i, d). \<lparr>bot_id = i, bot_repoName = repoName d, bot_status = status d,
                    bot_repoUrl = repoUrl d\<rparr>) (processes s)"

section \<open>Runs of the server\<close>

text \<open>
  Everything that can happen to the server: a request arrives, a clone settles, a child
  writes output or closes. Node runs each handler to its next suspension point without
  interleaving, so a run is a sequence of events.
\<close>

datatype event =
  Deploy dep_id request
| CloneOk dep_id nondet
| CloneFail dep_id string
| Data handle string
| Close handle "nat option" nondet
| Stop dep_id
| Restart dep_id nondet

fun step :: "event \<Rightarrow> state \<Rightarrow> state" where
  "step (Deploy i req) s = (case deploy i req s of Inl e \<Rightarrow> s | Inr (r, s') \<Rightarrow> s')"
| "step (CloneOk i nd) s = clone_ok i nd s"
| "step (CloneFail i msg) s = clone_failed i msg s"
| "step (Data h text) s = on_data h text s"
| "step (Close h code nd) s = on_close h code nd s"
| "step (Stop i) s = snd (stop i s)"
| "step (Restart i nd) s = snd (restart i nd s)"

definition run :: "event list \<Rightarrow> state \<Rightarrow> state" where
  "run evs s = foldl (\<lambda>s e. step e s) s evs"

text \<open>The ids that \<^verbatim>\<open>uuidv4()\<close> returned in a run, in order.\<close>

fun deploy_ids :: "event list \<Rightarrow> dep_id list" where
  "deploy_ids [] = []"
| "deploy_ids (Deploy i req # evs) = i # deploy_ids evs"
| "deploy_ids (e # evs) = deploy_ids evs"

section \<open>Invariants of a run\<close>

text \<open>Two states agree on the store, the suspended handlers and the child processes.\<close>

definition same_core :: "state \<Rightarrow> state \<Rightarrow> bool" where
  "same_core s s' =
     (processes s' = processes s \<and> tasks s' = tasks s \<and> children s' = children s \<and>
      next_handle s' = next_handle s)"

text \<open>
  What holds of every stored record: the status is one of the two strings the handlers
  assign, the record has a process handle that was allocated, and a record that is not
  marked stopped owns a child that has not closed and whose listener carries its id.
\<close>

definition rec_inv :: "state \<Rightarrow> dep_id \<Rightarrow> botData \<Rightarrow> bool" where
  "rec_inv s i d =
     ((status d = ''running'' \<or> status d = ''stopped'') \<and>
      (\<exists>h. process d = Some h \<and> h < next_handle s \<and>
           (children s h = Some (BotOf i) \<or> status d = ''stopped'')))"

definition wf :: "state \<Rightarrow> bool" where
  "wf s =
     ((\<forall>i d. map_of (processes s) i = Some d \<longrightarrow> rec_inv s i d) \<and>
      (\<forall>h l. children s h = Some l \<longrightarrow> h < next_handle s))"

text \<open>
  What a run remembers of its deploy requests: a suspended handler belongs to a deploy
  event of the run whose request has a repository URL, and a stored id belongs to a
  deploy event whose request has a repository URL and a run command. While a handler is
  suspended, its id is not in the store.
\<close>

definition runnable :: "event list \<Rightarrow> dep_id \<Rightarrow> bool" where
  "runnable evs i =
     (\<exists>req. Deploy i req \<in> set evs \<and> req_repoUrl req \<noteq> None \<and> truthy (req_runCmd req))"

definition hist_inv :: "event list \<Rightarrow> state \<Rightarrow> bool" where
  "hist_inv evs s =
     ((\<forall>i t. tasks s i = Some t \<longrightarrow>
         Deploy i (t_req t) \<in> set evs \<and> req_repoUrl (t_req t) \<noteq> None) \<and>
      (\<forall>i d. map_of (processes s) i = Some d \<longrightarrow> runnable evs i))"

definition disjoint_ids :: "state \<Rightarrow> bool" where
  "disjoint_ids s = (\<forall>i. tasks s i \<noteq> None \<longrightarrow> map_of (processes s) i = None)"

section \<open>The transitions of the specification, and a sample request\<close>

text \<open>
  The edges as the specification lists them, for comparison with the pairs of stored
  statuses the handlers can produce.
\<close>

definition claimed_edges :: "(string \<times> string) list" where
  "claimed_edges =
     [(''cloning'', ''building''), (''cloning'', ''running''), (''building'', ''running''),
      (''cloning'', ''failed''), (''building'', ''failed''), (''running'', ''stopped''),
      (''running'', ''running'')]"

definition code_edges :: "(string \<times> string) list" where
  "code_edges =
     [(''running'', ''stopped''), (''running'', ''running''), (''stopped'', ''running''),
      (''stopped'', ''stopped'')]"

text \<open>
  The request of the scenario in the specification (no build command, an empty map of
  variables, no proxy) and an environment in which spawn succeeds and
  \<^verbatim>\<open>Math.random()\<close> is one half.
\<close>

definition example_req :: request where
  "example_req =
     \<lparr>req_repoUrl = Some ''https://example.com/x/sample.git'', req_buildCmd = Some '''',
      req_runCmd = Some ''echo hi'', req_envVars = Some Map.empty, req_proxy = None\<rparr>"

definition example_nd :: nondet where
  "example_nd = \<lparr>spawn_fails = None, math_random = (1, 1)\<rparr>"

section \<open>Properties of the string functions\<close>

lemma split_acc_nonempty: "split_acc sep cur s \<noteq> []"
  by (induction s arbitrary: cur) auto

lemma split_nonempty: "split_str sep s \<noteq> []"
  by (simp add: split_str_def split_acc_nonempty)




section \<open>The handlers, case by case\<close>

lemma same_core_refl [simp]: "same_core s s"
  by (simp add: same_core_def)

lemma same_core_emit [simp]: "same_core s (emit i x s)"
  by (simp add: same_core_def emit_def)

lemma same_core_kill [simp]: "same_core s (kill h s)"
  by (simp add: same_core_def kill_def)

lemma start_bot_shape:
  "(processes (start_bot nd i t s) = processes s \<and> children (start_bot nd i t s) = children s
      \<and> next_handle (start_bot nd i t s) = next_handle s
    \<or> (\<exists>d. processes (start_bot nd i t s) = AList.update i d (processes s)
          \<and> status d = ''running'' \<and> process d = Some (next_handle s)
          \<and> runCmd d = req_runCmd (t_req t) \<and> truthy (req_runCmd (t_req t))
          \<and> children (start_bot nd i t s) = (children s)(next_handle s \<mapsto> BotOf i)
          \<and> next_handle (start_bot nd i t s) = Suc (next_handle s)))
   \<and> tasks (start_bot nd i t s) = (tasks s)(i := None)"
  apply (simp add: start_bot_def Let_def spawn_def emit_def deploy_catch_def split: option.split)
  apply (intro impI allI conjI exI)
  apply (rule refl | simp)+
  done

lemma start_bot_cases [case_names failed spawned]:
  obtains
    (failed) "processes (start_bot nd i t s) = processes s"
      "children (start_bot nd i t s) = children s"
      "next_handle (start_bot nd i t s) = next_handle s"
      "tasks (start_bot nd i t s) = (tasks s)(i := None)"
  | (spawned) d where "processes (start_bot nd i t s) = AList.update i d (processes s)"
      "status d = ''running''" "process d = Some (next_handle s)"
      "runCmd d = req_runCmd (t_req t)" "truthy (req_runCmd (t_req t))"
      "children (start_bot nd i t s) = (children s)(next_handle s \<mapsto> BotOf i)"
      "next_handle (start_bot nd i t s) = Suc (next_handle s)"
      "tasks (start_bot nd i t s) = (tasks s)(i := None)"
  using start_bot_shape [of nd i t s] by blast

lemma deploy_shape:
  "deploy i req s = Inr (r, s') \<Longrightarrow>
     r = Started i ''cloning'' \<and> req_repoUrl req \<noteq> None \<and> processes s' = processes s \<and>
     children s' = children s \<and> next_handle s' = next_handle s \<and>
     (\<exists>t. tasks s' = (tasks s)(i \<mapsto> t) \<and> t_req t = req \<and> t_phase t = AwaitClone)"
  by (auto simp: deploy_def Let_def emit_def split: option.splits)

lemma clone_failed_cases [case_names idle caught]:
  obtains
    (idle) "clone_failed i msg s = s"
  | (caught) t where "tasks s i = Some t" "t_phase t = AwaitClone"
      "clone_failed i msg s = deploy_catch i (GitError msg) s"
proof (cases "tasks s i")
  case None
  then show ?thesis using idle by (simp add: clone_failed_def)
next
  case (Some t)
  then show ?thesis using idle caught [of t]
    by (cases "t_phase t = AwaitClone") (simp_all add: clone_failed_def)
qed

lemma clone_ok_cases [case_names idle run build_failed build]:
  obtains
    (idle) "clone_ok i nd s = s"
  | (run) t where "tasks s i = Some t"
      "clone_ok i nd s = start_bot nd i t (emit i ''Clone complete.'' s)"
  | (build_failed) t where "tasks s i = Some t"
      "processes (clone_ok i nd s) = processes s" "children (clone_ok i nd s) = children s"
      "next_handle (clone_ok i nd s) = next_handle s"
      "tasks (clone_ok i nd s) = (tasks s)(i := None)"
  | (build) t where "tasks s i = Some t"
      "processes (clone_ok i nd s) = processes s"
      "children (clone_ok i nd s) = (children s)(next_handle s \<mapsto> BuildOf i)"
      "next_handle (clone_ok i nd s) = Suc (next_handle s)"
      "tasks (clone_ok i nd s) = (tasks s)(i \<mapsto> t\<lparr>t_phase := AwaitBuild\<rparr>)"
proof (cases "tasks s i")
  case None
  then show ?thesis using idle by (simp add: clone_ok_def)
next
  case (Some t)
  show ?thesis
  proof (cases "t_phase t = AwaitClone")
    case False
    with Some show ?thesis using idle by (simp add: clone_ok_def)
  next
    case True
    show ?thesis
    proof (cases "truthy (req_buildCmd (t_req t))")
      case False
      with Some True show ?thesis using run [of t] by (simp add: clone_ok_def Let_def)
    next
      case yes: True
      show ?thesis
      proof (cases "spawn nd (req_buildCmd (t_req t))
                      (emit i (''Running build: '' @ js_str (req_buildCmd (t_req t)))
                         (emit i ''Clone complete.'' s))")
        case (Inl e)
        with Some True yes show ?thesis using build_failed [of t]
          by (simp add: clone_ok_def Let_def emit_def deploy_catch_def)
      next
        case (Inr p)
        then obtain h s3 where p: "p = (h, s3)" by (cases p)
        with Inr Some True yes show ?thesis using build [of t]
          by (auto simp: clone_ok_def Let_def emit_def spawn_def split: option.splits if_splits)
      qed
    qed
  qed
qed

lemma on_data_shape: "same_core s (on_data h x s)"
  by (simp add: on_data_def split: option.split)

lemma on_close_cases [case_names idle build_gone build_done bot_norec bot_rec]:
  obtains
    (idle) "on_close h c nd s = s"
  | (build_gone) i where "children s h = Some (BuildOf i)"
      "on_close h c nd s = s\<lparr>children := (children s)(h := None)\<rparr>"
  | (build_done) i t where "children s h = Some (BuildOf i)" "tasks s i = Some t"
      "on_close h c nd s = start_bot nd i t (s\<lparr>children := (children s)(h := None)\<rparr>)"
  | (bot_norec) i where "children s h = Some (BotOf i)" "map_of (processes s) i = None"
      "on_close h c nd s =
         emit i (''Process exited with code '' @ show_code c) (s\<lparr>children := (children s)(h := None)\<rparr>)"
  | (bot_rec) i d where "children s h = Some (BotOf i)" "map_of (processes s) i = Some d"
      "on_close h c nd s =
         (emit i (''Process exited with code '' @ show_code c) (s\<lparr>children := (children s)(h := None)\<rparr>))
           \<lparr>processes := AList.update i (d\<lparr>status := ''stopped''\<rparr>) (processes s)\<rparr>"
proof (cases "children s h")
  case None
  then show ?thesis using idle by (simp add: on_close_def)
next
  case (Some l)
  show ?thesis
  proof (cases l)
    case (BuildOf i)
    show ?thesis
    proof (cases "tasks s i")
      case None
      with Some BuildOf show ?thesis using build_gone [of i] by (simp add: on_close_def)
    next
      case t: (Some t)
      with Some BuildOf show ?thesis using build_done [of i t] by (simp add: on_close_def)
    qed
  next
    case (BotOf i)
    show ?thesis
    proof (cases "map_of (processes s) i")
      case None
      with Some BotOf show ?thesis using bot_norec [of i] by (simp add: on_close_def emit_def)
    next
      case d: (Some d)
      with Some BotOf show ?thesis using bot_rec [of i d] by (simp add: on_close_def emit_def)
    qed
  qed
qed

lemma processes_kill [simp]: "processes (kill h s) = processes s"
  by (simp add: kill_def)

lemma stop_cases [case_names missing stopped]:
  obtains
    (missing) "stop i s = (NotFound ''Bot not found'', s)"
      "map_of (processes s) i = None \<or> (\<exists>d. map_of (processes s) i = Some d \<and> process d = None)"
  | (stopped) d h where "map_of (processes s) i = Some d" "process d = Some h"
      "stop i s = (Message ''Bot stopped'',
                  (kill h s)\<lparr>processes := AList.update i (d\<lparr>status := ''stopped''\<rparr>) (processes s)\<rparr>)"
  by (cases "map_of (processes s) i"; cases "process (the (map_of (processes s) i))")
     (auto simp: stop_def Let_def)

lemma restart_cases [case_names missing spawn_failed restarted]:
  obtains
    (missing) "map_of (processes s) i = None" "restart i nd s = (NotFound ''Bot not found'', s)"
  | (spawn_failed) d m where "map_of (processes s) i = Some d"
      "fst (restart i nd s) = ServerError m" "same_core s (snd (restart i nd s))"
  | (restarted) d where "map_of (processes s) i = Some d"
      "fst (restart i nd s) = Message ''Restarted successfully''"
      "processes (snd (restart i nd s)) =
          AList.update i (d\<lparr>process := Some (next_handle s), status := ''running''\<rparr>) (processes s)"
      "children (snd (restart i nd s)) = (children s)(next_handle s \<mapsto> BotOf i)"
      "next_handle (snd (restart i nd s)) = Suc (next_handle s)"
      "tasks (snd (restart i nd s)) = tasks s"
proof (cases "map_of (processes s) i")
  case None
  then show ?thesis using missing by (simp add: restart_def)
next
  case (Some d)
  let ?s2 = "emit i ''--- RESTART INITIATED ---'' (case process d of Some h \<Rightarrow> kill h s | None \<Rightarrow> s)"
  have core: "same_core s ?s2"
    by (simp add: same_core_def emit_def kill_def split: option.split)
  show ?thesis
  proof (cases "spawn nd (runCmd d) ?s2")
    case (Inl e)
    with Some core show ?thesis using spawn_failed [of d "message e"]
      by (simp add: restart_def Let_def)
  next
    case (Inr p)
    then obtain h s3 where p: "p = (h, s3)" by (cases p)
    with Inr have "h = next_handle ?s2" "s3 = ?s2\<lparr>next_handle := Suc (next_handle ?s2)\<rparr>"
      by (auto simp: spawn_def split: option.splits if_splits)
    with Inr p Some core show ?thesis using restarted [of d]
      by (simp add: restart_def Let_def same_core_def)
  qed
qed

lemma rec_inv_mono:
  assumes "rec_inv s j e" "next_handle s \<le> next_handle s'"
    "\<And>h. h < next_handle s \<Longrightarrow> children s h = Some (BotOf j) \<Longrightarrow> children s' h = Some (BotOf j)"
  shows "rec_inv s' j e"
proof -
  from assms(1) obtain h where h: "process e = Some h" "h < next_handle s"
    "children s h = Some (BotOf j) \<or> status e = ''stopped''"
    and st: "status e = ''running'' \<or> status e = ''stopped''"
    by (auto simp: rec_inv_def)
  have "h < next_handle s'" using h(2) assms(2) by simp
  moreover have "children s' h = Some (BotOf j) \<or> status e = ''stopped''"
    using h(2,3) assms(3) by blast
  ultimately show ?thesis using h(1) st by (simp add: rec_inv_def)
qed

lemma wf_same:
  "wf s \<Longrightarrow> processes s' = processes s \<Longrightarrow> children s' = children s \<Longrightarrow>
   next_handle s' = next_handle s \<Longrightarrow> wf s'"
  by (simp add: wf_def rec_inv_def)

lemma wf_same_core: "wf s \<Longrightarrow> same_core s s' \<Longrightarrow> wf s'"
  by (simp add: same_core_def wf_same)

lemma wf_spawn_bot:
  assumes "wf s" "processes s' = AList.update i d (processes s)" "status d = ''running''"
    "process d = Some (next_handle s)" "children s' = (children s)(next_handle s \<mapsto> BotOf i)"
    "next_handle s' = Suc (next_handle s)"
  shows "wf s'"
  unfolding wf_def
proof (intro conjI allI impI)
  fix j e assume "map_of (processes s') j = Some e"
  then have e: "(j = i \<and> e = d) \<or> (j \<noteq> i \<and> map_of (processes s) j = Some e)"
    using assms(2) by (auto simp: update_conv' split: if_splits)
  then show "rec_inv s' j e"
  proof
    assume "j = i \<and> e = d"
    then show ?thesis using assms by (simp add: rec_inv_def)
  next
    assume "j \<noteq> i \<and> map_of (processes s) j = Some e"
    then have "rec_inv s j e" using assms(1) by (simp add: wf_def)
    then show ?thesis using assms(1,5,6) by (elim rec_inv_mono) (auto simp: wf_def)
  qed
next
  fix h l assume "children s' h = Some l"
  then show "h < next_handle s'"
    using assms(1,5,6) by (auto simp: wf_def less_Suc_eq split: if_splits)
qed

lemma wf_spawn_build:
  assumes "wf s" "processes s' = processes s"
    "children s' = (children s)(next_handle s \<mapsto> BuildOf i)"
    "next_handle s' = Suc (next_handle s)"
  shows "wf s'"
  unfolding wf_def
proof (intro conjI allI impI)
  fix j e assume "map_of (processes s') j = Some e"
  then have "rec_inv s j e" using assms(1,2) by (simp add: wf_def)
  then show "rec_inv s' j e" using assms(1,3,4) by (elim rec_inv_mono) (auto simp: wf_def)
next
  fix h l assume "children s' h = Some l"
  then show "h < next_handle s'"
    using assms(1,3,4) by (auto simp: wf_def less_Suc_eq split: if_splits)
qed

lemma wf_mark_stopped:
  assumes "wf s" "map_of (processes s) i = Some d"
    "processes s' = AList.update i (d\<lparr>status := ''stopped''\<rparr>) (processes s)"
    "children s' = children s \<or> children s' = (children s)(h := None) \<and> children s h = Some (BotOf i)"
    "next_handle s' = next_handle s"
  shows "wf s'"
  unfolding wf_def
proof (intro conjI allI impI)
  fix j e assume "map_of (processes s') j = Some e"
  then have e: "(j = i \<and> e = d\<lparr>status := ''stopped''\<rparr>) \<or> (j \<noteq> i \<and> map_of (processes s) j = Some e)"
    using assms(3) by (auto simp: update_conv' split: if_splits)
  then show "rec_inv s' j e"
  proof
    assume a: "j = i \<and> e = d\<lparr>status := ''stopped''\<rparr>"
    have "rec_inv s i d" using assms(1,2) by (simp add: wf_def)
    then obtain k where "process d = Some k" "k < next_handle s" by (auto simp: rec_inv_def)
    then show ?thesis using a assms(5) by (simp add: rec_inv_def)
  next
    assume a: "j \<noteq> i \<and> map_of (processes s) j = Some e"
    then have "rec_inv s j e" using assms(1) by (simp add: wf_def)
    then show ?thesis using a assms(4,5) by (elim rec_inv_mono) auto
  qed
next
  fix k l assume "children s' k = Some l"
  then show "k < next_handle s'"
    using assms(1,4,5) by (auto simp: wf_def split: if_splits)
qed

lemma wf_close_other:
  assumes "wf s" "children s h = Some l" "\<And>i. l = BotOf i \<Longrightarrow> map_of (processes s) i = None"
    "processes s' = processes s" "children s' = (children s)(h := None)"
    "next_handle s' = next_handle s"
  shows "wf s'"
  unfolding wf_def
proof (intro conjI allI impI)
  fix j e assume a: "map_of (processes s') j = Some e"
  then have "rec_inv s j e" using assms(1,4) by (simp add: wf_def)
  moreover have "l \<noteq> BotOf j" using a assms(3,4) by auto
  ultimately show "rec_inv s' j e" using assms(2,5,6) by (elim rec_inv_mono) auto
next
  fix k l assume "children s' k = Some l"
  then show "k < next_handle s'"
    using assms(1,5,6) by (auto simp: wf_def split: if_splits)
qed

lemma wf_start_bot: "wf s \<Longrightarrow> wf (start_bot nd i t s)"
proof (cases rule: start_bot_cases [of nd i t s])
  case failed
  assume "wf s" then show ?thesis by (rule wf_same) (simp_all add: failed)
next
  case (spawned d)
  assume "wf s" then show ?thesis by (rule wf_spawn_bot [where d = d]) (simp_all add: spawned)
qed

lemma wf_clone_ok: "wf s \<Longrightarrow> wf (clone_ok i nd s)"
proof (cases rule: clone_ok_cases [of i nd s])
  case idle
  assume "wf s" then show ?thesis using idle by simp
next
  case (run t)
  assume "wf s"
  then have "wf (emit i ''Clone complete.'' s)" by (rule wf_same_core) simp
  then show ?thesis using run by (simp add: wf_start_bot)
next
  case (build_failed t)
  assume "wf s" then show ?thesis by (rule wf_same) (simp_all add: build_failed)
next
  case (build t)
  assume "wf s" then show ?thesis by (rule wf_spawn_build) (simp_all add: build)
qed

lemma wf_clone_failed: "wf s \<Longrightarrow> wf (clone_failed i msg s)"
proof (cases rule: clone_failed_cases [of i msg s])
  case idle
  assume "wf s" then show ?thesis using idle by simp
next
  case (caught t)
  assume "wf s" then show ?thesis
    by (rule wf_same) (simp_all add: caught deploy_catch_def emit_def)
qed

lemma wf_on_close: "wf s \<Longrightarrow> wf (on_close h c nd s)"
proof (cases rule: on_close_cases [of h c nd s])
  case idle
  assume "wf s" then show ?thesis using idle by simp
next
  case (build_gone i)
  assume "wf s" then show ?thesis
    by (rule wf_close_other [where h = h and l = "BuildOf i"]) (simp_all add: build_gone)
next
  case (build_done i t)
  assume "wf s"
  then have "wf (s\<lparr>children := (children s)(h := None)\<rparr>)"
    by (rule wf_close_other [where h = h and l = "BuildOf i"]) (simp_all add: build_done)
  then show ?thesis using build_done by (simp add: wf_start_bot)
next
  case (bot_norec i)
  assume "wf s" then show ?thesis
    by (rule wf_close_other [where h = h and l = "BotOf i"]) (simp_all add: bot_norec emit_def)
next
  case (bot_rec i d)
  assume "wf s" then show ?thesis
    by (rule wf_mark_stopped [where i = i and d = d and h = h]) (simp_all add: bot_rec emit_def)
qed

lemma wf_stop: "wf s \<Longrightarrow> wf (snd (stop i s))"
proof (cases rule: stop_cases [of i s])
  case missing
  assume "wf s" then show ?thesis using missing by simp
next
  case (stopped d h)
  assume "wf s" then show ?thesis
    by (rule wf_mark_stopped [where i = i and d = d and h = h]) (simp_all add: stopped kill_def)
qed

lemma wf_restart: "wf s \<Longrightarrow> wf (snd (restart i nd s))"
proof (cases rule: restart_cases [of s i nd])
  case missing
  assume "wf s" then show ?thesis using missing by simp
next
  case (spawn_failed d m)
  assume "wf s" then show ?thesis using spawn_failed by (simp add: wf_same_core)
next
  case (restarted d)
  assume "wf s" then show ?thesis
    by (rule wf_spawn_bot [where i = i and d = "d\<lparr>process := Some (next_handle s), status := ''running''\<rparr>"])
       (simp_all add: restarted)
qed

lemma wf_deploy: "wf s \<Longrightarrow> deploy i req s = Inr (r, s') \<Longrightarrow> wf s'"
  using deploy_shape [of i req s r s'] wf_same [of s s'] by blast

lemma wf_step: "wf s \<Longrightarrow> wf (step e s)"
proof (cases e)
  case (Deploy i req)
  assume "wf s"
  then show ?thesis using Deploy wf_deploy [of s i req]
    by (cases "deploy i req s") auto
next
  case (Data h x)
  assume "wf s"
  then show ?thesis using Data wf_same_core [OF _ on_data_shape] by simp
qed (simp_all add: wf_clone_ok wf_clone_failed wf_on_close wf_stop wf_restart)

lemma run_snoc: "run (evs @ [e]) s = step e (run evs s)"
  by (simp add: run_def)

lemma wf_init: "wf (init penv)"
  by (simp add: wf_def init_def)

lemma wf_run: "wf (run evs (init penv))"
  by (induction evs rule: rev_induct) (simp_all add: run_snoc wf_step wf_init run_def)

section \<open>Every event, case by case\<close>

lemma step_cases [case_names idle deployed ended building started restarted stopped]:
  obtains
    (idle) "processes (step e s) = processes s" "tasks (step e s) = tasks s"
  | (deployed) i req t where "e = Deploy i req" "processes (step e s) = processes s"
      "tasks (step e s) = (tasks s)(i \<mapsto> t)" "t_req t = req" "req_repoUrl req \<noteq> None"
  | (ended) i where "processes (step e s) = processes s" "tasks (step e s) = (tasks s)(i := None)"
  | (building) i t where "processes (step e s) = processes s" "tasks s i = Some t"
      "tasks (step e s) = (tasks s)(i \<mapsto> t\<lparr>t_phase := AwaitBuild\<rparr>)"
  | (started) i t d where "tasks s i = Some t"
      "processes (step e s) = AList.update i d (processes s)" "status d = ''running''"
      "truthy (req_runCmd (t_req t))" "tasks (step e s) = (tasks s)(i := None)"
  | (restarted) i nd d where "e = Restart i nd" "map_of (processes s) i = Some d"
      "processes (step e s) =
         AList.update i (d\<lparr>process := Some (next_handle s), status := ''running''\<rparr>) (processes s)"
      "tasks (step e s) = tasks s"
  | (stopped) i d where "map_of (processes s) i = Some d"
      "processes (step e s) = AList.update i (d\<lparr>status := ''stopped''\<rparr>) (processes s)"
      "tasks (step e s) = tasks s"
proof (cases e)
  case (Deploy i req)
  show ?thesis
  proof (cases "deploy i req s")
    case (Inl err)
    with Deploy show ?thesis using idle by simp
  next
    case (Inr p)
    then obtain r s' where "deploy i req s = Inr (r, s')" by (cases p) simp
    with Deploy show ?thesis using deployed [of i req] deploy_shape [of i req s r s'] by auto
  qed
next
  case (CloneOk i nd)
  show ?thesis
  proof (cases rule: clone_ok_cases [of i nd s])
    case idle
    with CloneOk show ?thesis using that(1) by simp
  next
    case (run t)
    let ?s1 = "emit i ''Clone complete.'' s"
    have s1: "processes ?s1 = processes s" "tasks ?s1 = tasks s" by (simp_all add: emit_def)
    show ?thesis
    proof (cases rule: start_bot_cases [of nd i t ?s1])
      case failed
      with CloneOk run s1 show ?thesis using ended [of i] by simp
    next
      case (spawned d)
      with CloneOk run s1 show ?thesis using started [of i t d] by simp
    qed
  next
    case (build_failed t)
    with CloneOk show ?thesis using ended [of i] by simp
  next
    case (build t)
    with CloneOk show ?thesis using building [of i t] by simp
  qed
next
  case (CloneFail i msg)
  show ?thesis
  proof (cases rule: clone_failed_cases [of i msg s])
    case idle
    with CloneFail show ?thesis using that(1) by simp
  next
    case (caught t)
    with CloneFail show ?thesis using ended [of i] by (simp add: deploy_catch_def emit_def)
  qed
next
  case (Data h x)
  then show ?thesis using idle on_data_shape [of s h x] by (simp add: same_core_def)
next
  case (Close h c nd)
  show ?thesis
  proof (cases rule: on_close_cases [of h c nd s])
    case idle
    with Close show ?thesis using that(1) by simp
  next
    case (build_gone i)
    with Close show ?thesis using that(1) by simp
  next
    case (build_done i t)
    let ?s1 = "s\<lparr>children := (children s)(h := None)\<rparr>"
    show ?thesis
    proof (cases rule: start_bot_cases [of nd i t ?s1])
      case failed
      with Close build_done show ?thesis using ended [of i] by simp
    next
      case (spawned d)
      with Close build_done show ?thesis using started [of i t d] by simp
    qed
  next
    case (bot_norec i)
    with Close show ?thesis using that(1) by (simp add: emit_def)
  next
    case (bot_rec i d)
    with Close show ?thesis using stopped [of i d] by (simp add: emit_def)
  qed
next
  case (Stop i)
  show ?thesis
  proof (cases rule: stop_cases [of i s])
    case missing
    with Stop show ?thesis using idle by simp
  next
    case (stopped d h)
    with Stop show ?thesis using that(7) [of i d] by (simp add: kill_def)
  qed
next
  case (Restart i nd)
  show ?thesis
  proof (cases rule: restart_cases [of s i nd])
    case missing
    with Restart show ?thesis using idle by simp
  next
    case (spawn_failed d m)
    with Restart show ?thesis using idle by (simp add: same_core_def)
  next
    case (restarted d)
    with Restart show ?thesis using that(6) [of i nd d] by simp
  qed
qed

lemma keys_step: "distinct (map fst (processes s)) \<Longrightarrow> distinct (map fst (processes (step e s)))"
  by (cases rule: step_cases [of e s]) (simp_all add: distinct_update)

lemma keys_run: "distinct (map fst (processes (run evs (init penv))))"
  by (induction evs rule: rev_induct) (simp_all add: run_snoc keys_step, simp add: run_def init_def)

lemma stored_rec_inv:
  assumes "p \<in> set (processes (run evs (init penv)))"
  shows "rec_inv (run evs (init penv)) (fst p) (snd p)"
proof -
  have "map_of (processes (run evs (init penv))) (fst p) = Some (snd p)"
    using assms keys_run [of evs penv] by simp
  then show ?thesis using wf_run [of evs penv] by (simp add: wf_def)
qed

section \<open>Deploy requests and stored ids\<close>

lemma deploy_ids_append: "deploy_ids (xs @ ys) = deploy_ids xs @ deploy_ids ys"
  by (induction xs rule: deploy_ids.induct) simp_all

lemma deploy_in_ids: "Deploy i r \<in> set evs \<Longrightarrow> i \<in> set (deploy_ids evs)"
  by (induction evs rule: deploy_ids.induct) auto

lemma deploy_unique:
  "distinct (deploy_ids evs) \<Longrightarrow> Deploy i r \<in> set evs \<Longrightarrow> Deploy i r' \<in> set evs \<Longrightarrow> r = r'"
  by (induction evs rule: deploy_ids.induct) (auto dest: deploy_in_ids)

lemma runnableI:
  "Deploy i req \<in> set evs \<Longrightarrow> req_repoUrl req \<noteq> None \<Longrightarrow> truthy (req_runCmd req) \<Longrightarrow>
   runnable evs i"
  unfolding runnable_def by blast

lemma runnable_snoc: "runnable evs i \<Longrightarrow> runnable (evs @ [e]) i"
  unfolding runnable_def by auto

lemma runnable_in_ids: "runnable evs i \<Longrightarrow> i \<in> set (deploy_ids evs)"
  unfolding runnable_def by (auto dest: deploy_in_ids)

lemma hist_step:
  assumes "hist_inv evs s"
  shows "hist_inv (evs @ [e]) (step e s)"
proof -
  have t: "Deploy i (t_req t) \<in> set (evs @ [e]) \<and> req_repoUrl (t_req t) \<noteq> None"
    if "tasks s i = Some t" for i t
    using assms that by (simp add: hist_inv_def)
  have p: "runnable (evs @ [e]) i" if "map_of (processes s) i = Some d" for i d
    using assms that runnable_snoc by (simp add: hist_inv_def)
  show ?thesis
  proof (cases rule: step_cases [of e s])
    case idle
    then show ?thesis using t p unfolding hist_inv_def by (auto split: if_splits)
  next
    case (deployed i req t')
    then show ?thesis using t p unfolding hist_inv_def by auto
  next
    case (ended i)
    then show ?thesis using t p unfolding hist_inv_def by (auto split: if_splits)
  next
    case (building i t')
    then show ?thesis using t p unfolding hist_inv_def by (auto split: if_splits)
  next
    case (started i t' d)
    have "runnable (evs @ [e]) i"
      using t [OF started(1)] started(4) by (intro runnableI [of i "t_req t'"]) simp_all
    then show ?thesis using started t p unfolding hist_inv_def
      by (auto simp: update_conv' split: if_splits)
  next
    case (restarted i nd d)
    then show ?thesis using p [of i d] t p unfolding hist_inv_def
      by (auto simp: update_conv' split: if_splits)
  next
    case (stopped i d)
    then show ?thesis using p [of i d] t p unfolding hist_inv_def
      by (auto simp: update_conv' split: if_splits)
  qed
qed

lemma hist_run: "hist_inv evs (run evs (init penv))"
proof (induction evs rule: rev_induct)
  case Nil
  show ?case by (simp add: hist_inv_def run_def init_def)
next
  case (snoc e evs)
  then show ?case by (simp add: run_snoc hist_step)
qed

lemma disjoint_step:
  assumes "hist_inv evs s" "disjoint_ids s" "distinct (deploy_ids (evs @ [e]))"
  shows "disjoint_ids (step e s)"
proof (cases rule: step_cases [of e s])
  case idle
  then show ?thesis using assms(2) by (simp add: disjoint_ids_def)
next
  case (deployed i req t)
  have "i \<notin> set (deploy_ids evs)" using assms(3) deployed(1) by (simp add: deploy_ids_append)
  then have "map_of (processes s) i = None"
    using assms(1) runnable_in_ids [of evs i] unfolding hist_inv_def
    by (cases "map_of (processes s) i") auto
  then show ?thesis using deployed assms(2) by (simp add: disjoint_ids_def)
next
  case (ended i)
  then show ?thesis using assms(2) by (simp add: disjoint_ids_def)
next
  case (building i t)
  then show ?thesis using assms(2) by (auto simp: disjoint_ids_def)
next
  case (started i t d)
  then show ?thesis using assms(2) by (simp add: disjoint_ids_def update_conv')
next
  case (restarted i nd d)
  then show ?thesis using assms(2) by (auto simp: disjoint_ids_def update_conv')
next
  case (stopped i d)
  then show ?thesis using assms(2) by (auto simp: disjoint_ids_def update_conv')
qed

lemma disjoint_run: "distinct (deploy_ids evs) \<Longrightarrow> disjoint_ids (run evs (init penv))"
proof (induction evs rule: rev_induct)
  case Nil
  show ?case by (simp add: disjoint_ids_def run_def init_def)
next
  case (snoc e evs)
  then have "disjoint_ids (run evs (init penv))" by (simp add: deploy_ids_append)
  then show ?case using snoc.prems hist_run [of evs penv]
    by (simp add: run_snoc disjoint_step)
qed

lemma listBots_ids: "bot_id ` set (listBots s) = fst ` set (processes s)"
  by (force simp: listBots_def)

lemma to_running_by_restart:
  assumes "disjoint_ids s" "map_of (processes s) i = Some d"
    "map_of (processes (step e s)) i = Some d'" "status d = ''stopped''" "status d' = ''running''"
  shows "\<exists>nd. e = Restart i nd"
proof (cases rule: step_cases [of e s])
  case (started j t d'')
  then have "j \<noteq> i" using assms(1,2) by (auto simp: disjoint_ids_def)
  then show ?thesis using started assms by (simp add: update_conv')
next
  case (restarted j nd d'')
  then show ?thesis using assms by (cases "j = i") (simp_all add: update_conv')
next
  case (stopped j d'')
  then show ?thesis using assms by (cases "j = i") (auto simp: update_conv')
qed (use assms in simp_all)

section \<open>The sanitized directory segment and the repository name\<close>




text \<open>
  Claim C9. The claim reads: the repository name is the last path segment of the URL
  with a trailing \<^verbatim>\<open>.git\<close> stripped, and a segment that does not end in
  \<^verbatim>\<open>.git\<close> is left unchanged even when \<^verbatim>\<open>.git\<close> occurs elsewhere in it. The
  code removes the first occurrence of \<^verbatim>\<open>.git\<close> wherever it stands: for the URL
  \<^verbatim>\<open>https://github.com/user/user.github.io\<close> the last segment is
  \<^verbatim>\<open>user.github.io\<close>, the claim gives that segment back, and the code returns
  \<^verbatim>\<open>userhub.io\<close>.
\<close>

theorem C9_first_occurrence_removed:
  "repoName_of ''https://github.com/user/user.github.io'' = ''userhub.io''
   \<and> spec_repoName ''https://github.com/user/user.github.io'' = ''user.github.io''
   \<and> last (split_str CHR ''/'' ''https://github.com/user/user.github.io'') = ''user.github.io''"
  by (simp add: repoName_of_def spec_repoName_def strip_git_suffix_def split_str_def)

section \<open>What a run stores\<close>

lemmas eval_defs = run_def init_def deploy_def clone_ok_def clone_failed_def start_bot_def
  restart_def stop_def on_close_def on_data_def emit_def spawn_def kill_def deploy_catch_def
  listBots_def Let_def example_req_def example_nd_def merged_env_def

text \<open>
  Claim C10. Every record that is ever in the store has status \<^verbatim>\<open>running\<close> or
  \<^verbatim>\<open>stopped\<close>: \<^verbatim>\<open>cloning\<close>, \<^verbatim>\<open>building\<close> and \<^verbatim>\<open>failed\<close> are never stored,
  so the list of deployments never shows them, whatever sequence of deploys, stops,
  restarts and process exits has happened.
\<close>

theorem C10_stored_status:
  "(\<forall>p \<in> set (processes (run evs (init penv))).
      status (snd p) = ''running'' \<or> status (snd p) = ''stopped'')
   \<and> (\<forall>b \<in> set (listBots (run evs (init penv))).
      bot_status b = ''running'' \<or> bot_status b = ''stopped'')"
proof -
  have a: "status (snd p) = ''running'' \<or> status (snd p) = ''stopped''"
    if "p \<in> set (processes (run evs (init penv)))" for p
    using stored_rec_inv [OF that] by (simp add: rec_inv_def)
  then show ?thesis by (fastforce simp: listBots_def)
qed

theorem C10_stored_status_witness:
  "map bot_status
     (listBots (run [Deploy ''a'' example_req, CloneOk ''a'' example_nd, Stop ''a''] (init Map.empty)))
     = [''stopped'']
   \<and> map (\<lambda>p. status (snd p))
     (processes (run [Deploy ''a'' example_req, CloneOk ''a'' example_nd, Stop ''a''] (init Map.empty)))
     = [''stopped'']"
  using C10_stored_status
    [of "[Deploy ''a'' example_req, CloneOk ''a'' example_nd, Stop ''a'']" Map.empty]
  by (simp add: eval_defs)

section \<open>Stop\<close>

text \<open>
  Claim C8. For every stop request: when the id is in the store, stop reports success,
  also when the deployment has no live process (the kill of a process that has closed
  does nothing, and then the whole request changes nothing); when the id is not in the
  store, stop answers NotFound and no state changes.
\<close>

theorem C8_stop:
  assumes "s = run evs (init penv)"
  shows "(map_of (processes s) i \<noteq> None \<longrightarrow> fst (stop i s) = Message ''Bot stopped'')
    \<and> (\<forall>d h. map_of (processes s) i = Some d \<and> process d = Some h \<and> children s h = None
          \<longrightarrow> stop i s = (Message ''Bot stopped'', s))
    \<and> (map_of (processes s) i = None \<longrightarrow> stop i s = (NotFound ''Bot not found'', s))"
proof (intro conjI allI impI)
  assume "map_of (processes s) i \<noteq> None"
  then obtain d where d: "map_of (processes s) i = Some d" by auto
  then have "rec_inv s i d" using wf_run [of evs penv] assms by (simp add: wf_def)
  then obtain h where "process d = Some h" by (auto simp: rec_inv_def)
  with d show "fst (stop i s) = Message ''Bot stopped''" by (simp add: stop_def Let_def)
next
  fix d h
  assume a: "map_of (processes s) i = Some d \<and> process d = Some h \<and> children s h = None"
  then have "rec_inv s i d" using wf_run [of evs penv] assms by (simp add: wf_def)
  with a have st: "status d = ''stopped''" by (auto simp: rec_inv_def)
  then have "d\<lparr>status := ''stopped''\<rparr> = d" by (cases d) simp
  moreover have "AList.update i d (processes s) = processes s"
    using a by (simp add: update_triv)
  ultimately show "stop i s = (Message ''Bot stopped'', s)"
    using a by (simp add: stop_def Let_def kill_def)
next
  assume "map_of (processes s) i = None"
  then show "stop i s = (NotFound ''Bot not found'', s)" by (simp add: stop_def)
qed

theorem C8_stop_witness:
  "map_of (processes (run [Deploy ''a'' example_req, CloneOk ''a'' example_nd, Close 0 (Some 0) example_nd]
      (init Map.empty))) ''a'' \<noteq> None
   \<and> children (run [Deploy ''a'' example_req, CloneOk ''a'' example_nd, Close 0 (Some 0) example_nd]
      (init Map.empty)) 0 = None
   \<and> fst (stop ''a'' (run [Deploy ''a'' example_req, CloneOk ''a'' example_nd, Close 0 (Some 0) example_nd]
      (init Map.empty))) = Message ''Bot stopped''
   \<and> map_of (processes (run [Deploy ''a'' example_req, CloneOk ''a'' example_nd, Close 0 (Some 0) example_nd]
      (init Map.empty))) ''b'' = None
   \<and> fst (stop ''b'' (run [Deploy ''a'' example_req, CloneOk ''a'' example_nd, Close 0 (Some 0) example_nd]
      (init Map.empty))) = NotFound ''Bot not found''"
  using C8_stop [OF refl,
      of "[Deploy ''a'' example_req, CloneOk ''a'' example_nd, Close 0 (Some 0) example_nd]"
      Map.empty "''a''"]
  by (simp add: eval_defs)

section \<open>Restart and the exit of the superseded process\<close>

text \<open>
  Claim C1. The claim reads: after a successful restart, the close event of the previous
  process never changes the stored state, which stays \<^verbatim>\<open>running\<close>. The close
  listener only tests \<^verbatim>\<open>processes.has(id)\<close>, so it does not tell the superseded
  process from the current one. In the run below a deployment is started (process 0),
  restarted (process 0 is killed, process 1 is attached, the status is
  \<^verbatim>\<open>running\<close>), and then process 0 closes: the record is marked
  \<^verbatim>\<open>stopped\<close> while process 1 is its handle and has not closed.
\<close>

theorem C1_stale_close_marks_stopped:
  "map (\<lambda>p. (fst p, process (snd p), status (snd p)))
     (processes (run [Deploy ''a'' example_req, CloneOk ''a'' example_nd, Restart ''a'' example_nd]
        (init Map.empty)))
     = [(''a'', Some 1, ''running'')]
   \<and> children (run [Deploy ''a'' example_req, CloneOk ''a'' example_nd, Restart ''a'' example_nd]
        (init Map.empty)) 0
     = Some (BotOf ''a'')
   \<and> signalled (run [Deploy ''a'' example_req, CloneOk ''a'' example_nd, Restart ''a'' example_nd]
        (init Map.empty)) = [0]
   \<and> map (\<lambda>p. (fst p, process (snd p), status (snd p)))
     (processes (run [Deploy ''a'' example_req, CloneOk ''a'' example_nd, Restart ''a'' example_nd,
         Close 0 None example_nd] (init Map.empty)))
     = [(''a'', Some 1, ''stopped'')]
   \<and> children (run [Deploy ''a'' example_req, CloneOk ''a'' example_nd, Restart ''a'' example_nd,
         Close 0 None example_nd] (init Map.empty)) 1
     = Some (BotOf ''a'')"
  by (simp add: eval_defs)

section \<open>Transitions of the stored status\<close>

text \<open>
  Claim C2, as stated, fails: the claim allows no transition from \<^verbatim>\<open>stopped\<close> to
  \<^verbatim>\<open>running\<close>, and a restart of a stopped deployment makes exactly that
  transition.
\<close>

theorem C2_stopped_to_running:
  "map (\<lambda>p. (fst p, status (snd p)))
     (processes (run [Deploy ''a'' example_req, CloneOk ''a'' example_nd, Stop ''a''] (init Map.empty)))
     = [(''a'', ''stopped'')]
   \<and> map (\<lambda>p. (fst p, status (snd p)))
     (processes (step (Restart ''a'' example_nd)
        (run [Deploy ''a'' example_req, CloneOk ''a'' example_nd, Stop ''a''] (init Map.empty))))
     = [(''a'', ''running'')]
   \<and> (''stopped'', ''running'') \<notin> set claimed_edges"
  by (simp add: eval_defs claimed_edges_def)

text \<open>
  Claim C2, amended. For every deployment id and every event of a run, the stored status
  before and after the event is one of the pairs running to stopped, running to running,
  stopped to running, stopped to stopped; a record enters the store with status
  \<^verbatim>\<open>running\<close>; a record, once stored, stays in the store; and, the ids being
  pairwise distinct, only a restart of the id takes a record from \<^verbatim>\<open>stopped\<close>
  to \<^verbatim>\<open>running\<close>.
\<close>

theorem C2_stored_transitions:
  assumes "s = run evs (init penv)" "s' = step e s"
  shows "(\<forall>d d'. map_of (processes s) i = Some d \<and> map_of (processes s') i = Some d'
            \<longrightarrow> (status d, status d') \<in> set code_edges)
    \<and> (\<forall>d'. map_of (processes s) i = None \<and> map_of (processes s') i = Some d'
            \<longrightarrow> status d' = ''running'')
    \<and> (map_of (processes s) i \<noteq> None \<longrightarrow> map_of (processes s') i \<noteq> None)
    \<and> (\<forall>d d'. distinct (deploy_ids evs) \<and> map_of (processes s) i = Some d \<and>
          map_of (processes s') i = Some d' \<and> status d = ''stopped'' \<and> status d' = ''running''
            \<longrightarrow> (\<exists>nd. e = Restart i nd))"
proof (intro conjI allI impI)
  fix d d'
  assume a: "map_of (processes s) i = Some d \<and> map_of (processes s') i = Some d'"
  have "s' = run (evs @ [e]) (init penv)" using assms by (simp add: run_snoc)
  then have "rec_inv s' i d'" using a wf_run [of "evs @ [e]" penv] by (simp add: wf_def)
  moreover have "rec_inv s i d" using a assms(1) wf_run [of evs penv] by (simp add: wf_def)
  ultimately show "(status d, status d') \<in> set code_edges"
    by (auto simp: rec_inv_def code_edges_def)
next
  fix d'
  assume a: "map_of (processes s) i = None \<and> map_of (processes s') i = Some d'"
  show "status d' = ''running''"
    using a unfolding assms(2)
    by (cases rule: step_cases [of e s]) (auto simp: update_conv' split: if_splits)
next
  assume a: "map_of (processes s) i \<noteq> None"
  show "map_of (processes s') i \<noteq> None"
    using a unfolding assms(2)
    by (cases rule: step_cases [of e s]) (auto simp: update_conv' split: if_splits)
next
  fix d d'
  assume a: "distinct (deploy_ids evs) \<and> map_of (processes s) i = Some d \<and>
          map_of (processes s') i = Some d' \<and> status d = ''stopped'' \<and> status d' = ''running''"
  then have "disjoint_ids s" using disjoint_run [of evs penv] assms(1) by simp
  then show "\<exists>nd. e = Restart i nd"
    using a to_running_by_restart [of s i d e d'] assms(2) by simp
qed

theorem C2_stored_transitions_witness:
  "distinct (deploy_ids [Deploy ''a'' example_req, CloneOk ''a'' example_nd, Stop ''a''])
   \<and> map_option status (map_of (processes
        (run [Deploy ''a'' example_req, CloneOk ''a'' example_nd, Stop ''a''] (init Map.empty))) ''a'')
      = Some ''stopped''
   \<and> map_option status (map_of (processes (step (Restart ''a'' example_nd)
        (run [Deploy ''a'' example_req, CloneOk ''a'' example_nd, Stop ''a''] (init Map.empty)))) ''a'')
      = Some ''running''
   \<and> (''stopped'', ''running'') \<in> set code_edges"
  using C2_stored_transitions [OF refl refl,
      of "[Deploy ''a'' example_req, CloneOk ''a'' example_nd, Stop ''a'']" Map.empty "''a''"
        "Restart ''a'' example_nd"]
  by (simp add: eval_defs code_edges_def)

section \<open>The id between the response and the run stage\<close>

text \<open>
  Claim C5. From the moment deploy answers with the id and status \<^verbatim>\<open>cloning\<close>
  until the run process is spawned, the id is absent from the store: the list of
  deployments does not include it, and stop and restart on it answer NotFound. The
  record is inserted only at the run stage. Here the ids that \<^verbatim>\<open>uuidv4()\<close>
  returned in the run are pairwise distinct, and the deploy handler of the id is
  suspended (it has a task).
\<close>

theorem C5_pending_absent:
  assumes "distinct (deploy_ids evs)" "s = run evs (init penv)" "tasks s i \<noteq> None"
  shows "map_of (processes s) i = None \<and> i \<notin> bot_id ` set (listBots s)
    \<and> stop i s = (NotFound ''Bot not found'', s)
    \<and> restart i nd s = (NotFound ''Bot not found'', s)
    \<and> (\<forall>req s0 r s1. deploy i req s0 = Inr (r, s1) \<longrightarrow> r = Started i ''cloning'' \<and> tasks s1 i \<noteq> None)
    \<and> (\<forall>nd' t s0. tasks (start_bot nd' i t s0) i = None)"
proof -
  have none: "map_of (processes s) i = None"
    using disjoint_run [OF assms(1), of penv] assms(2,3) by (simp add: disjoint_ids_def)
  then have "i \<notin> bot_id ` set (listBots s)"
    by (simp add: listBots_ids map_of_eq_None_iff)
  moreover have "stop i s = (NotFound ''Bot not found'', s)"
    "restart i nd s = (NotFound ''Bot not found'', s)"
    using none by (simp_all add: stop_def restart_def)
  moreover have "r = Started i ''cloning'' \<and> tasks s1 i \<noteq> None"
    if "deploy i req s0 = Inr (r, s1)" for req s0 r s1
    using deploy_shape [OF that] by auto
  moreover have "tasks (start_bot nd' i t s0) i = None" for nd' t s0
    by (cases rule: start_bot_cases [of nd' i t s0]) simp_all
  ultimately show ?thesis using none by blast
qed

theorem C5_pending_absent_witness:
  "distinct (deploy_ids [Deploy ''a'' example_req])
   \<and> tasks (run [Deploy ''a'' example_req] (init Map.empty)) ''a'' \<noteq> None
   \<and> listBots (run [Deploy ''a'' example_req] (init Map.empty)) = []
   \<and> fst (stop ''a'' (run [Deploy ''a'' example_req] (init Map.empty))) = NotFound ''Bot not found''
   \<and> fst (restart ''a'' example_nd (run [Deploy ''a'' example_req] (init Map.empty)))
      = NotFound ''Bot not found''
   \<and> map_sum id fst (deploy ''a'' example_req (init Map.empty)) = Inr (Started ''a'' ''cloning'')"
  using C5_pending_absent [OF _ refl, of "[Deploy ''a'' example_req]" Map.empty "''a''" example_nd]
  by (simp add: eval_defs)

section \<open>Deploy requests with a missing field\<close>

text \<open>
  No record is ever created for the id of a deploy request that lacks the run command or
  the repository URL (the ids of a run being pairwise distinct).
\<close>

lemma no_record_without_fields:
  assumes "distinct (deploy_ids evs)" "Deploy i req \<in> set evs"
    "req_runCmd req = None \<or> req_repoUrl req = None"
  shows "map_of (processes (run evs (init penv))) i = None"
proof (rule ccontr)
  assume "map_of (processes (run evs (init penv))) i \<noteq> None"
  then have "runnable evs i" using hist_run [of evs penv] by (auto simp: hist_inv_def)
  then obtain req' where r: "Deploy i req' \<in> set evs" "req_repoUrl req' \<noteq> None"
    "truthy (req_runCmd req')"
    by (auto simp: runnable_def)
  then have "req' = req" using deploy_unique [OF assms(1) r(1) assms(2)] by simp
  with r assms(3) show False by auto
qed

text \<open>
  Claim C3. The claim reads: a deploy request in which the run command or the repository
  URL is absent gets a synchronous ValidationError, and no record is ever created. The
  handler validates nothing. For a request with a repository URL and no run command it
  answers 202 with status \<^verbatim>\<open>cloning\<close> and starts the clone; when the clone has
  resolved, the spawn of the missing command throws, and the catch block publishes the
  message of that error as a log line. For a request with no repository URL the line
  that computes \<^verbatim>\<open>repoName\<close> throws before the \<^verbatim>\<open>try\<close>, and no response is
  sent at all. In neither case is a record created.
\<close>

theorem C3_deploy_without_validation:
  "map_sum id fst (deploy ''a'' (example_req\<lparr>req_runCmd := None\<rparr>) (init Map.empty))
     = Inr (Started ''a'' ''cloning'')
   \<and> map fst (clones (run [Deploy ''a'' (example_req\<lparr>req_runCmd := None\<rparr>)] (init Map.empty)))
     = [''https://example.com/x/sample.git'']
   \<and> emitted (run [Deploy ''a'' (example_req\<lparr>req_runCmd := None\<rparr>), CloneOk ''a'' example_nd]
        (init Map.empty))
     = [(''a'', ''Cloning https://example.com/x/sample.git...''), (''a'', ''Clone complete.''),
        (''a'', ''Starting bot: undefined''),
        (''a'', ''Error: '' @ message (projl (spawn example_nd None (init Map.empty))))]
   \<and> processes (run [Deploy ''a'' (example_req\<lparr>req_runCmd := None\<rparr>), CloneOk ''a'' example_nd]
        (init Map.empty)) = []
   \<and> isl (deploy ''a'' (example_req\<lparr>req_repoUrl := None\<rparr>) (init Map.empty))
   \<and> processes (run [Deploy ''a'' (example_req\<lparr>req_repoUrl := None\<rparr>)] (init Map.empty)) = []"
  by (simp add: eval_defs)

section \<open>A clone that fails\<close>

text \<open>
  Claim C4, as stated, fails: after a failed clone there is no record of the deployment
  at all, hence none in state \<^verbatim>\<open>failed\<close>; the failure is visible only as a log
  line.
\<close>

theorem C4_no_failed_record:
  "map_of (processes (run [Deploy ''a'' example_req, CloneFail ''a'' ''boom''] (init Map.empty))) ''a''
     = None
   \<and> listBots (run [Deploy ''a'' example_req, CloneFail ''a'' ''boom''] (init Map.empty)) = []
   \<and> emitted (run [Deploy ''a'' example_req, CloneFail ''a'' ''boom''] (init Map.empty))
     = [(''a'', ''Cloning https://example.com/x/sample.git...''), (''a'', ''Error: boom'')]"
  by (simp add: eval_defs)

text \<open>
  Claim C4, amended. For every deploy whose clone step fails, the handler publishes one
  log line carrying the error message, creates no record (the id stays absent from the
  store, and no state \<^verbatim>\<open>failed\<close> is stored), and performs no retry: no further
  clone is started, no process is spawned, and the handler ends.
\<close>

theorem C4_clone_failure:
  assumes "distinct (deploy_ids evs)" "s = run evs (init penv)" "tasks s i = Some t"
    "t_phase t = AwaitClone" "s' = step (CloneFail i msg) s"
  shows "emitted s' = emitted s @ [(i, ''Error: '' @ msg)]
    \<and> processes s' = processes s \<and> map_of (processes s') i = None
    \<and> clones s' = clones s \<and> children s' = children s \<and> tasks s' i = None"
proof -
  have "map_of (processes s) i = None"
    using disjoint_run [OF assms(1), of penv] assms(2,3) by (simp add: disjoint_ids_def)
  then show ?thesis using assms(3,4,5)
    by (simp add: clone_failed_def deploy_catch_def emit_def)
qed

theorem C4_clone_failure_witness:
  "distinct (deploy_ids [Deploy ''a'' example_req])
   \<and> map_option t_phase (tasks (run [Deploy ''a'' example_req] (init Map.empty)) ''a'') = Some AwaitClone
   \<and> emitted (step (CloneFail ''a'' ''boom'') (run [Deploy ''a'' example_req] (init Map.empty)))
     = emitted (run [Deploy ''a'' example_req] (init Map.empty)) @ [(''a'', ''Error: boom'')]
   \<and> clones (step (CloneFail ''a'' ''boom'') (run [Deploy ''a'' example_req] (init Map.empty)))
     = [(''https://example.com/x/sample.git'', ''__dirname/deployments/sample_a'')]
   \<and> tasks (step (CloneFail ''a'' ''boom'') (run [Deploy ''a'' example_req] (init Map.empty))) ''a''
     = None"
  using C4_clone_failure [OF _ refl _ _ refl, of "[Deploy ''a'' example_req]" Map.empty "''a''" _ "''boom''"]
  by (simp add: eval_defs deployPath_of_def DEPLOY_DIR_def repoName_of_def split_str_def
      sanitize_def toLowerCase_def replace_outside_class_def in_class_i_def lower_char_def
      lower_letters_def upper_letters_def digit_chars_def)

section \<open>The port of the child environment\<close>

lemma bits_0: "bits 0 = 0"
  by (simp add: bits.simps)

lemma bits_1: "bits (Suc 0) = 1"
  by (simp add: bits.simps)

lemma bits_numeral: "bits (numeral k) = Suc (bits (numeral k div 2))"
  by (subst bits.simps) simp

lemmas bits_eval = bits_0 bits_1 bits_numeral

lemma port_half: "random_port (1, 1) = 37767"
  by (simp add: random_port_def round53_def rne_def bits_eval)

lemma port_largest: "random_port (2 ^ 53 - 1, 53) = 65534"
  by (simp add: random_port_def round53_def rne_def bits_eval)

text \<open>
  Rounding is visible in the result: for the random number \<open>81094798368 / 2 ^ 52\<close> the
  sum is rounded up to 10001, where exact arithmetic would give 10000.
\<close>

lemma port_rounded_up:
  "random_port (81094798368, 52) = 10001
   \<and> \<lfloor>(81094798368 / 2 ^ 52 :: real) * (65535 - 10000) + 10000\<rfloor> = 10000"
  by (simp add: random_port_def round53_def rne_def bits_eval)

lemma bits_less: "n < 2 ^ bits n"
proof (induction n rule: bits.induct)
  case (1 n)
  show ?case
  proof (cases "n = 0")
    case True
    then show ?thesis by (simp add: bits.simps)
  next
    case False
    then have "n div 2 < 2 ^ bits (n div 2)" using 1 by simp
    then have "n < 2 * 2 ^ bits (n div 2)" by linarith
    with False show ?thesis by (subst bits.simps) simp
  qed
qed

lemma bits_le: "n < 2 ^ k \<Longrightarrow> bits n \<le> k"
proof (induction k arbitrary: n)
  case 0
  then show ?case by (simp add: bits.simps)
next
  case (Suc k)
  show ?case
  proof (cases "n = 0")
    case True
    then show ?thesis by (simp add: bits.simps)
  next
    case False
    have "n div 2 < 2 ^ k" using Suc.prems by simp
    then have "bits (n div 2) \<le> k" by (rule Suc.IH)
    with False show ?thesis by (subst bits.simps) simp
  qed
qed

text \<open>Rounding never crosses a multiple of the unit it rounds to.\<close>

lemma rne_lo: "g * 2 ^ s \<le> v \<Longrightarrow> g \<le> rne v s"
proof -
  assume "g * 2 ^ s \<le> v"
  then have "g * 2 ^ s div 2 ^ s \<le> v div 2 ^ s" by (rule div_le_mono)
  then have "g \<le> v div 2 ^ s" by simp
  then show ?thesis by (simp add: rne_def Let_def)
qed

lemma rne_hi: "v \<le> g * 2 ^ s \<Longrightarrow> rne v s \<le> g"
proof -
  assume a: "v \<le> g * 2 ^ s"
  then have "v div 2 ^ s \<le> g * 2 ^ s div 2 ^ s" by (rule div_le_mono)
  then have q: "v div 2 ^ s \<le> g" by simp
  show ?thesis
  proof (cases "v div 2 ^ s = g")
    case True
    have "v = v div 2 ^ s * 2 ^ s + v mod 2 ^ s" using div_mult_mod_eq [of v "2 ^ s"] by simp
    with True a have "v mod 2 ^ s = 0" by simp
    with True show ?thesis by (simp add: rne_def Let_def)
  next
    case False
    with q have "v div 2 ^ s < g" by simp
    then show ?thesis by (simp add: rne_def Let_def)
  qed
qed

lemma round53_lo: "2 ^ (bits v - 53) dvd G \<Longrightarrow> G \<le> v \<Longrightarrow> G \<le> round53 v"
proof -
  assume d: "2 ^ (bits v - 53) dvd G" and le: "G \<le> v"
  from d obtain g where g: "G = g * 2 ^ (bits v - 53)" by (auto simp: dvd_def mult.commute)
  then have "g \<le> rne v (bits v - 53)" using le rne_lo by simp
  then show ?thesis using g by (simp add: round53_def Let_def)
qed

lemma round53_hi: "2 ^ (bits v - 53) dvd G \<Longrightarrow> v \<le> G \<Longrightarrow> round53 v \<le> G"
proof -
  assume d: "2 ^ (bits v - 53) dvd G" and le: "v \<le> G"
  from d obtain g where g: "G = g * 2 ^ (bits v - 53)" by (auto simp: dvd_def mult.commute)
  then have "rne v (bits v - 53) \<le> g" using le rne_hi by simp
  then show ?thesis using g by (simp add: round53_def Let_def)
qed

text \<open>A value below \<open>2 ^ (16 + n)\<close> is rounded to a unit that divides \<open>2 ^ (n - 37)\<close>.\<close>

lemma grid_dvd:
  assumes "v < 2 ^ (16 + n)"
  shows "(2::nat) ^ (bits v - 53) dvd 2 ^ (n - 37)" "(2::nat) ^ (bits v - 53) dvd c * 2 ^ n"
proof -
  have "bits v \<le> 16 + n" using assms by (rule bits_le)
  then have s: "bits v - 53 \<le> n - 37" by simp
  then show "(2::nat) ^ (bits v - 53) dvd 2 ^ (n - 37)" by (rule le_imp_power_dvd)
  have "bits v - 53 \<le> n" using s by simp
  then have "(2::nat) ^ (bits v - 53) dvd 2 ^ n" by (rule le_imp_power_dvd)
  then show "(2::nat) ^ (bits v - 53) dvd c * 2 ^ n" by simp
qed

text \<open>
  The exact product stays one unit of the last rounding below 55535, except for the
  largest random number below 1 with 53 bits, which \<open>port_largest\<close> settles.
\<close>

lemma product_bound:
  assumes "(m::nat) < 2 ^ 53" "m < 2 ^ n" "\<not> (n = 53 \<and> m = 2 ^ 53 - 1)"
  shows "m * 55535 + 2 ^ (n - 37) \<le> 55535 * 2 ^ n"
proof -
  consider "n \<le> 52" | "n = 53" | "54 \<le> n" by linarith
  then show ?thesis
  proof cases
    case 1
    then have "(2::nat) ^ (n - 37) \<le> 2 ^ 15" by (intro power_increasing) simp_all
    moreover have "(m + 1) * 55535 \<le> 2 ^ n * 55535" using assms(2) by (intro mult_le_mono1) simp
    ultimately show ?thesis by (simp add: algebra_simps)
  next
    case 2
    then have "m + 2 \<le> 2 ^ n" using assms(1,3) by simp
    then have "(m + 2) * 55535 \<le> 2 ^ n * 55535" by (intro mult_le_mono1)
    then show ?thesis using 2 by (simp add: algebra_simps)
  next
    case 3
    then obtain k where k: "n = 54 + k" using le_Suc_ex by blast
    have "m * 55535 \<le> 2 ^ 53 * 55535" using assms(1) by (intro mult_le_mono1) simp
    then have "m * 55535 \<le> 2 ^ 53 * 55535 * 2 ^ k"
      by (metis le_trans mult.right_neutral mult_le_mono2 one_le_numeral one_le_power)
    moreover have "(2::nat) ^ (n - 37) \<le> 2 ^ n" by (intro power_increasing) simp_all
    ultimately show ?thesis using k by (simp add: power_add)
  qed
qed

lemma random_port_range:
  assumes "is_random r"
  shows "10000 \<le> random_port r \<and> random_port r < 65535"
proof -
  obtain m n where r: "r = (m, n)" by (cases r)
  with assms have m: "m < 2 ^ 53" "m < 2 ^ n" by (simp_all add: is_random_def)
  show ?thesis
  proof (cases "n = 53 \<and> m = 2 ^ 53 - 1")
    case True
    then show ?thesis using r port_largest by simp
  next
    case False
    let ?t = "n - 37"
    let ?v1 = "round53 (m * 55535)"
    let ?v = "?v1 + 10000 * 2 ^ n"
    have pb: "m * 55535 + 2 ^ ?t \<le> 55535 * 2 ^ n"
      using m False by (rule product_bound)
    have pos: "(0::nat) < 2 ^ n" "(0::nat) < 2 ^ ?t" by simp_all
    have "m * 55535 < 65536 * 2 ^ n" using pb pos by linarith
    then have small1: "m * 55535 < 2 ^ (16 + n)" by (simp add: power_add)
    have "?v1 \<le> 55535 * 2 ^ n - 2 ^ ?t"
    proof (rule round53_hi)
      show "2 ^ (bits (m * 55535) - 53) dvd (55535 * 2 ^ n - 2 ^ ?t :: nat)"
        using grid_dvd [OF small1] by (intro dvd_diff_nat)
      show "m * 55535 \<le> 55535 * 2 ^ n - 2 ^ ?t" using pb by simp
    qed
    moreover have t: "(2::nat) ^ ?t \<le> 2 ^ n" by (intro power_increasing) simp_all
    ultimately have v_hi: "?v \<le> 65535 * 2 ^ n - 2 ^ ?t" using pos by linarith
    then have "?v < 65536 * 2 ^ n" using t pos by linarith
    then have small2: "?v < 2 ^ (16 + n)" by (simp add: power_add)
    have "round53 ?v \<le> 65535 * 2 ^ n - 2 ^ ?t"
    proof (rule round53_hi)
      show "2 ^ (bits ?v - 53) dvd (65535 * 2 ^ n - 2 ^ ?t :: nat)"
        using grid_dvd [OF small2] by (intro dvd_diff_nat)
      show "?v \<le> 65535 * 2 ^ n - 2 ^ ?t" by (rule v_hi)
    qed
    then have "round53 ?v < 65535 * 2 ^ n" using t pos by linarith
    then have hi: "round53 ?v div 2 ^ n < 65535" by (rule less_mult_imp_div_less)
    have "10000 * 2 ^ n \<le> round53 ?v"
    proof (rule round53_lo)
      show "2 ^ (bits ?v - 53) dvd (10000 * 2 ^ n :: nat)" using grid_dvd [OF small2] by simp
      show "10000 * 2 ^ n \<le> ?v" by simp
    qed
    then have "10000 * 2 ^ n div 2 ^ n \<le> round53 ?v div 2 ^ n" by (rule div_le_mono)
    then have lo: "10000 \<le> round53 ?v div 2 ^ n" by simp
    show ?thesis using r lo hi by (simp add: random_port_def)
  qed
qed

text \<open>
  Claim C6, as stated, fails: a \<^verbatim>\<open>PORT\<close> entry whose value is the empty string is
  supplied, and it does not appear unchanged, because \<^verbatim>\<open>!envVars.PORT\<close> is true
  of the empty string and the random port overwrites it (here \<^verbatim>\<open>Math.random()\<close>
  is one half).
\<close>

theorem C6_port_empty_overwritten:
  "merged_env Map.empty [''PORT'' \<mapsto> ''''] (1, 1) ''PORT'' = Some (Num 37767)
   \<and> merged_env Map.empty [''PORT'' \<mapsto> ''''] (1, 1) ''PORT'' \<noteq> Some (Str '''')"
  by (simp add: merged_env_def port_half [unfolded One_nat_def])

text \<open>
  Claim C6, amended. For every binary64 value of \<^verbatim>\<open>Math.random()\<close> that is at
  least 0 and below 1, with the arithmetic of line 67 in binary64: if the supplied
  variables have no \<^verbatim>\<open>PORT\<close> entry, or an empty one, the merged environment holds an
  injected integer port, at least 10000 and below 65535; if a non-empty
  \<^verbatim>\<open>PORT\<close> is supplied, it appears unchanged. The record of a deployment whose
  run command is spawned stores that \<^verbatim>\<open>PORT\<close>.
\<close>

theorem C6_port:
  assumes "is_random r"
  shows "(ev ''PORT'' = None \<or> ev ''PORT'' = Some '''' \<longrightarrow>
           (\<exists>p. merged_env penv ev r ''PORT'' = Some (Num p) \<and> 10000 \<le> p \<and> p < 65535))
    \<and> (\<forall>v. ev ''PORT'' = Some v \<and> v \<noteq> '''' \<longrightarrow> merged_env penv ev r ''PORT'' = Some (Str v))
    \<and> (\<forall>nd i t s. req_envVars (t_req t) = Some ev \<and> truthy (req_runCmd (t_req t)) \<and>
          spawn_fails nd = None \<longrightarrow>
          (\<exists>d. map_of (processes (start_bot nd i t s)) i = Some d \<and>
               env d ''PORT'' = merged_env (process_env s) ev (math_random nd) ''PORT''))"
proof (intro conjI allI impI)
  assume "ev ''PORT'' = None \<or> ev ''PORT'' = Some ''''"
  then have "merged_env penv ev r ''PORT'' = Some (Num (random_port r))"
    by (auto simp: merged_env_def)
  then show "\<exists>p. merged_env penv ev r ''PORT'' = Some (Num p) \<and> 10000 \<le> p \<and> p < 65535"
    using random_port_range [OF assms] by simp
next
  fix v assume "ev ''PORT'' = Some v \<and> v \<noteq> ''''"
  then show "merged_env penv ev r ''PORT'' = Some (Str v)"
    by (simp add: merged_env_def map_add_def)
next
  fix nd :: nondet and i :: dep_id and t :: task and s :: state
  assume a: "req_envVars (t_req t) = Some ev \<and> truthy (req_runCmd (t_req t)) \<and> spawn_fails nd = None"
  then obtain c where c: "req_runCmd (t_req t) = Some c" "c \<noteq> []"
    by (cases "req_runCmd (t_req t)") auto
  show "\<exists>d. map_of (processes (start_bot nd i t s)) i = Some d \<and>
            env d ''PORT'' = merged_env (process_env s) ev (math_random nd) ''PORT''"
    using a c by (simp add: start_bot_def Let_def spawn_def emit_def update_conv')
qed

theorem C6_port_witness:
  "is_random (1, 1)
   \<and> merged_env Map.empty Map.empty (1, 1) ''PORT'' = Some (Num 37767)
   \<and> merged_env Map.empty [''PORT'' \<mapsto> ''8080''] (1, 1) ''PORT'' = Some (Str ''8080'')"
  using C6_port [of "(1, 1)" Map.empty Map.empty]
    C6_port [of "(1, 1)" "[''PORT'' \<mapsto> ''8080'']" Map.empty]
  by (simp add: merged_env_def is_random_def port_half [unfolded One_nat_def])

end
